theory Spec2Isabelle
  imports Main "HOL-Library.Sublist"
begin

section \<open>Data model of \<^verbatim>\<open>src/builder.ts\<close>\<close>

text \<open>
  The dynamic values the builder hands to the host engine are opaque to it: it only tests
  them against \<^verbatim>\<open>undefined\<close> and pushes them. \<open>Ref\<close> stands for any object or function,
  identified by reference (an event handler, a directive result).
\<close>

datatype jsval = Undefined | Null | Str string | Num int | Bool bool | Ref nat

text \<open>
  A \<^verbatim>\<open>Record<string, T>\<close> is the list of its entries in the order in which
  \<^verbatim>\<open>for (const key in record)\<close> enumerates the keys; inside the loop body
  \<^verbatim>\<open>record[key]\<close> is the second component of the entry.
\<close>

text \<open>
  An attribute value is declared a string. The code tests it against \<^verbatim>\<open>undefined\<close> and
  calls \<^verbatim>\<open>toString()\<close> on it, so a number or a boolean stored there (types are erased
  at run time, and a descriptor may come from JSON) is rendered as text as well.
  \<open>ANum i\<close> is the number whose value is the integer \<open>i\<close>, of magnitude below
  \<open>10\<^sup>2\<^sup>1\<close>: the numbers that \<^verbatim>\<open>toString()\<close> prints in plain decimal notation.
\<close>

datatype attr_value = AUndefined | AStr string | ANum int | ABool bool

text \<open>
  The argument of \<^verbatim>\<open>_build\<close> is \<^verbatim>\<open>BuildElement | TemplateResult | string\<close>.
  A string is \<open>Text\<close>. Every other argument is an object, and the code tells a
  \<^verbatim>\<open>TemplateResult\<close> from a \<^verbatim>\<open>BuildElement\<close> only by asking whether the object has
  a field \<^verbatim>\<open>strings\<close> and a field \<^verbatim>\<open>values\<close>; so an object carries these two facts
  (\<open>has_strings\<close>, \<open>has_values\<close>) next to the six optional fields of the
  \<^verbatim>\<open>BuildElement\<close> interface. An absent optional field is \<open>None\<close>.
\<close>

datatype node =
    Text string
  | Obj (has_strings: bool) (has_values: bool)
        (name: "string option")
        (attributes: "(string \<times> attr_value) list option")
        (properties: "(string \<times> jsval) list option")
        (events: "(string \<times> jsval) list option")
        (directives: "jsval list option")
        (children: "node list option")

text \<open>
  An entry of the \<^verbatim>\<open>values\<close> array: a property value, event handler or directive
  (\<open>Val\<close>), or the child object itself that was classified as a template (\<open>Tpl\<close>).
\<close>

datatype dyn = Val jsval | Tpl node

text \<open>The two accumulators \<^verbatim>\<open>strings\<close> and \<^verbatim>\<open>values\<close>, threaded through every call.\<close>

type_synonym acc = "string list \<times> dyn list"

section \<open>The sanitizer and the attribute escaping\<close>

text \<open>The character class \<^verbatim>\<open>[a-zA-Z0-9\-_]\<close>, by character code.\<close>

definition is_safe_char :: "char \<Rightarrow> bool" where
  "is_safe_char c =
     (let n = (of_char c :: nat) in
        (97 \<le> n \<and> n \<le> 122) \<or> (65 \<le> n \<and> n \<le> 90) \<or> (48 \<le> n \<and> n \<le> 57)
        \<or> n = 45 \<or> n = 95)"

text \<open>\<^verbatim>\<open>str.replace(/[^a-zA-Z0-9\-_]/g, '')\<close>: every character outside the class is removed.\<close>

definition sanitize :: "string \<Rightarrow> string" where
  "sanitize str = filter is_safe_char str"

text \<open>
  \<^verbatim>\<open>s.replace(/c/g, r)\<close> for a one-character pattern \<open>c\<close>: every occurrence of \<open>c\<close> is
  replaced by \<open>r\<close> in one left-to-right pass; text inserted by the pass is not rescanned.
\<close>

definition replace_all :: "char \<Rightarrow> string \<Rightarrow> string \<Rightarrow> string" where
  "replace_all c r s = concat (map (\<lambda>x. if x = c then r else [x]) s)"

text \<open>
  The chain of four \<^verbatim>\<open>replace\<close> calls on an attribute value, in the order of the source:
  \<^verbatim>\<open><\<close>, then \<^verbatim>\<open>>\<close>, then \<^verbatim>\<open>&\<close>, then the double quote (character 0x22).
\<close>

definition escape_value :: "string \<Rightarrow> string" where
  "escape_value v =
     replace_all (CHR 0x22) ''&quot;''
       (replace_all (CHR ''&'') ''&amp;''
         (replace_all (CHR ''>'') ''&gt;''
           (replace_all (CHR ''<'') ''&lt;'' v)))"

text \<open>The decimal digits of a natural number, most significant first.\<close>

function digits :: "nat \<Rightarrow> string" where
  "digits n = (if n < 10 then [''0123456789'' ! n] else digits (n div 10) @ [''0123456789'' ! (n mod 10)])"
  by pat_completeness auto
termination
  by (relation "measure (\<lambda>n. n)") auto

text \<open>
  \<^verbatim>\<open>value.toString()\<close> for a string, an integer-valued number and a boolean. The code
  calls it only behind the test against \<^verbatim>\<open>undefined\<close>, so there is no equation for
  \<open>AUndefined\<close>.
\<close>

fun to_string :: "attr_value \<Rightarrow> string" where
  "to_string (AStr s) = s"
| "to_string (ANum i) = (if i < 0 then ''-'' @ digits (nat (- i)) else digits (nat i))"
| "to_string (ABool b) = (if b then ''true'' else ''false'')"

section \<open>The accumulators\<close>

text \<open>
  \<^verbatim>\<open>strings[strings.length - 1] += s\<close>. On an empty array the index is \<open>-1\<close>, which is
  not an array index: the assignment leaves the sequence of elements as it is.
\<close>

definition append_open :: "string \<Rightarrow> string list \<Rightarrow> string list" where
  "append_open s strs =
     (if strs = [] then []
      else strs[length strs - 1 := strs ! (length strs - 1) @ s])"

definition emit :: "string \<Rightarrow> acc \<Rightarrow> acc" where
  "emit s st = (append_open s (fst st), snd st)"

text \<open>\<^verbatim>\<open>values.push(v); strings.push('')\<close>.\<close>

definition push :: "dyn \<Rightarrow> acc \<Rightarrow> acc" where
  "push v st = (fst st @ [''''], snd st @ [v])"

section \<open>The recursive builder\<close>

text \<open>The body of the loop over \<^verbatim>\<open>element.attributes\<close>.\<close>

definition attribute_text :: "string \<times> attr_value \<Rightarrow> string" where
  "attribute_text e =
     '' '' @ sanitize (fst e) @ ''='' @ [CHR 0x22] @ escape_value (to_string (snd e)) @ [CHR 0x22]"

definition attribute_step :: "string \<times> attr_value \<Rightarrow> acc \<Rightarrow> acc" where
  "attribute_step e st =
     (if snd e = AUndefined then st else emit (attribute_text e) st)"

text \<open>The body of the loop over \<^verbatim>\<open>element.properties\<close>.\<close>

definition property_step :: "string \<times> jsval \<Rightarrow> acc \<Rightarrow> acc" where
  "property_step e st =
     (if snd e = Undefined then st
      else push (Val (snd e)) (emit ('' .'' @ sanitize (fst e) @ ''='') st))"

text \<open>The body of the loop over \<^verbatim>\<open>element.events\<close>.\<close>

definition event_step :: "string \<times> jsval \<Rightarrow> acc \<Rightarrow> acc" where
  "event_step e st =
     (if snd e = Undefined then st
      else push (Val (snd e)) (emit ('' @'' @ sanitize (fst e) @ ''='') st))"

text \<open>The body of the loop over \<^verbatim>\<open>element.directives\<close>: no test of the entry.\<close>

definition directive_step :: "jsval \<Rightarrow> acc \<Rightarrow> acc" where
  "directive_step d st = push (Val d) (emit '' '' st)"

text \<open>\<^verbatim>\<open>if (field) { for (... of/in field) body }\<close> for an optional field.\<close>

definition for_each :: "('a \<Rightarrow> acc \<Rightarrow> acc) \<Rightarrow> 'a list option \<Rightarrow> acc \<Rightarrow> acc" where
  "for_each body field st = (case field of None \<Rightarrow> st | Some xs \<Rightarrow> fold body xs st)"

text \<open>
  \<^verbatim>\<open>_build(element, strings, values)\<close>. The branches are in the order of the source:
  a string; an object with both fields \<^verbatim>\<open>strings\<close> and \<^verbatim>\<open>values\<close>; an object whose
  \<^verbatim>\<open>name\<close> is falsy (absent or the empty string); a named element.
\<close>

fun build_inner :: "node \<Rightarrow> acc \<Rightarrow> acc" where
  "build_inner (Text s) st = emit s st"
| "build_inner (Obj hs hv nm attrs props evs dirs chs) st =
     (if hs \<and> hv then push (Tpl (Obj hs hv nm attrs props evs dirs chs)) st
      else
        (case nm of
           None \<Rightarrow> (case chs of None \<Rightarrow> st | Some cs \<Rightarrow> fold build_inner cs st)
         | Some n \<Rightarrow>
            if n = [] then (case chs of None \<Rightarrow> st | Some cs \<Rightarrow> fold build_inner cs st)
            else
              (let tagName = sanitize n;
                   st1 = emit (''<'' @ tagName) st;
                   st2 = for_each attribute_step attrs st1;
                   st3 = for_each property_step props st2;
                   st4 = for_each event_step evs st3;
                   st5 = for_each directive_step dirs st4;
                   st6 = emit ''>'' st5;
                   st7 = (case chs of None \<Rightarrow> st6 | Some cs \<Rightarrow> fold build_inner cs st6)
               in emit (''</'' @ tagName @ ''>'') st7)))"

text \<open>
  \<^verbatim>\<open>build(elements)\<close>: a single element or an array of elements. The result of
  \<^verbatim>\<open>html(strings, ...values)\<close> is the template result holding the two arrays, here the
  pair itself.
\<close>

datatype build_arg = Single node | Many "node list"

fun build :: "build_arg \<Rightarrow> acc" where
  "build (Many elements) = fold build_inner elements ([''''], [])"
| "build (Single element) = build_inner element ([''''], [])"

section \<open>The builder on a bounded call stack\<close>








section \<open>Notions used to state the properties\<close>

text \<open>The entries a loop over an optional field visits: none when the field is absent.\<close>

definition entries_of :: "'a list option \<Rightarrow> 'a list" where
  "entries_of field = (case field of None \<Rightarrow> [] | Some xs \<Rightarrow> xs)"

text \<open>The values of a record's entries that are not \<^verbatim>\<open>undefined\<close>, in enumeration order.\<close>

definition defined_values :: "(string \<times> jsval) list option \<Rightarrow> jsval list" where
  "defined_values field = filter (\<lambda>v. v \<noteq> Undefined) (map snd (entries_of field))"

text \<open>
  The texts that a named element appends in front of the values it pushes: one for each
  defined property, then one for each defined event, then one for each directive.
\<close>

definition binding_texts ::
  "(string \<times> jsval) list option \<Rightarrow> (string \<times> jsval) list option \<Rightarrow> jsval list option
     \<Rightarrow> string list" where
  "binding_texts props evs dirs =
     map (\<lambda>e. '' .'' @ sanitize (fst e) @ ''='') (filter (\<lambda>e. snd e \<noteq> Undefined) (entries_of props))
     @ map (\<lambda>e. '' @'' @ sanitize (fst e) @ ''='') (filter (\<lambda>e. snd e \<noteq> Undefined) (entries_of evs))
     @ map (\<lambda>d. '' '') (entries_of dirs)"

text \<open>The texts of the attributes whose value is not \<^verbatim>\<open>undefined\<close>, joined.\<close>

definition attributes_text :: "(string \<times> attr_value) list option \<Rightarrow> string" where
  "attributes_text attrs =
     concat (map attribute_text (filter (\<lambda>e. snd e \<noteq> AUndefined) (entries_of attrs)))"

text \<open>
  The fragments after the texts \<open>pieces\<close> have been appended, each followed by a push,
  to the fragments \<open>pre @ [op]\<close>, and \<open>s\<close> has then been appended to the open fragment.
\<close>

definition fragments_after :: "string list \<Rightarrow> string \<Rightarrow> string list \<Rightarrow> string \<Rightarrow> string list" where
  "fragments_after pre op pieces s =
     (case pieces of [] \<Rightarrow> pre @ [op @ s] | p # ps \<Rightarrow> pre @ [op @ p] @ ps @ [s])"

text \<open>How many more fragments than values the accumulators hold.\<close>

definition surplus :: "acc \<Rightarrow> int" where
  "surplus st = int (length (fst st)) - int (length (snd st))"

section \<open>The branches of the builder\<close>

lemma for_each_fold: "for_each f field st = fold f (entries_of field) st"
  by (cases field) (simp_all add: for_each_def entries_of_def)

lemma build_inner_template:
  "build_inner (Obj True True nm attrs props evs dirs chs) st
     = push (Tpl (Obj True True nm attrs props evs dirs chs)) st"
  by simp

lemma build_inner_fragment:
  assumes "\<not> (hs \<and> hv)" and "nm = None \<or> nm = Some []"
  shows "build_inner (Obj hs hv nm attrs props evs dirs chs) st = for_each build_inner chs st"
  using assms by (auto simp: for_each_def split: option.splits)

lemma build_inner_tagged:
  assumes "\<not> (hs \<and> hv)" and "n \<noteq> []"
  shows "build_inner (Obj hs hv (Some n) attrs props evs dirs chs) st
     = emit (''</'' @ sanitize n @ ''>'')
         (for_each build_inner chs
           (emit ''>''
             (for_each directive_step dirs
               (for_each event_step evs
                 (for_each property_step props
                   (for_each attribute_step attrs
                     (emit (''<'' @ sanitize n) st)))))))"
  using assms by (auto simp: for_each_def Let_def split: option.splits)

declare build_inner.simps(2) [simp del]

text \<open>Induction over a node with the hypothesis for every child.\<close>

lemma node_children_induct [case_names Text Obj]:
  assumes "\<And>s. P (Text s)"
    and "\<And>hs hv nm attrs props evs dirs chs.
           (\<And>c. c \<in> set (entries_of chs) \<Longrightarrow> P c) \<Longrightarrow> P (Obj hs hv nm attrs props evs dirs chs)"
  shows "P el"
proof (induction el)
  case (Text s)
  show ?case by (rule assms(1))
next
  case (Obj hs hv nm attrs props evs dirs chs)
  show ?case
  proof (rule assms(2))
    fix c assume "c \<in> set (entries_of chs)"
    then show "P c" using Obj by (cases chs) (auto simp: entries_of_def)
  qed
qed

section \<open>The open fragment\<close>

lemma length_append_open: "length (append_open s strs) = length strs"
  by (simp add: append_open_def)

lemma append_open_twice: "append_open b (append_open a strs) = append_open (a @ b) strs"
  by (simp add: append_open_def)

lemma append_open_snoc: "append_open s (pre @ [op]) = pre @ [op @ s]"
  by (simp add: append_open_def nth_append)

lemma emit_twice: "emit b (emit a st) = emit (a @ b) st"
  by (simp add: emit_def append_open_twice)

lemma emit_snoc: "emit s (pre @ [op], vals) = (pre @ [op @ s], vals)"
  by (simp add: emit_def append_open_snoc)

section \<open>Fragments and values grow together\<close>

lemma surplus_emit: "surplus (emit s st) = surplus st"
  by (simp add: surplus_def emit_def length_append_open)

lemma surplus_push: "surplus (push v st) = surplus st"
  by (simp add: surplus_def push_def)

lemma surplus_fold:
  "(\<And>x st. x \<in> set xs \<Longrightarrow> surplus (f x st) = surplus st) \<Longrightarrow> surplus (fold f xs st) = surplus st"
  by (induction xs arbitrary: st) simp_all

lemma surplus_for_each:
  "(\<And>x st. surplus (f x st) = surplus st) \<Longrightarrow> surplus (for_each f field st) = surplus st"
  by (cases field) (simp_all add: for_each_def surplus_fold)

lemma surplus_attribute_step: "surplus (attribute_step e st) = surplus st"
  by (simp add: attribute_step_def surplus_emit)

lemma surplus_property_step: "surplus (property_step e st) = surplus st"
  by (simp add: property_step_def surplus_push surplus_emit)

lemma surplus_event_step: "surplus (event_step e st) = surplus st"
  by (simp add: event_step_def surplus_push surplus_emit)

lemma surplus_directive_step: "surplus (directive_step e st) = surplus st"
  by (simp add: directive_step_def surplus_push surplus_emit)

lemmas surplus_loops =
  surplus_for_each [of attribute_step, OF surplus_attribute_step]
  surplus_for_each [of property_step, OF surplus_property_step]
  surplus_for_each [of event_step, OF surplus_event_step]
  surplus_for_each [of directive_step, OF surplus_directive_step]

lemma surplus_build_inner: "surplus (build_inner el st) = surplus st"
proof (induction el arbitrary: st rule: node_children_induct)
  case (Text s)
  show ?case by (simp add: surplus_emit)
next
  case (Obj hs hv nm attrs props evs dirs chs)
  have kids: "\<And>s. surplus (fold build_inner (entries_of chs) s) = surplus s"
    using Obj by (intro surplus_fold)
  show ?case
  proof (cases "hs \<and> hv")
    case True
    then show ?thesis by (simp add: build_inner_template surplus_push)
  next
    case notpl: False
    show ?thesis
    proof (cases "nm = None \<or> nm = Some []")
      case True
      show ?thesis
        by (simp only: build_inner_fragment [OF notpl True] for_each_fold kids)
    next
      case False
      then obtain n where n: "nm = Some n" "n \<noteq> []" by (cases nm) auto
      show ?thesis
        unfolding n(1) build_inner_tagged [OF notpl n(2)]
        by (simp only: surplus_emit for_each_fold [of build_inner] kids surplus_loops)
    qed
  qed
qed

section \<open>The values pushed\<close>

lemma snd_emit: "snd (emit s st) = snd st"
  by (simp add: emit_def)

lemma snd_push: "snd (push v st) = snd st @ [v]"
  by (simp add: push_def)

lemma snd_fold_attribute_step: "snd (fold attribute_step as st) = snd st"
  by (induction as arbitrary: st) (simp_all add: attribute_step_def snd_emit)

lemma snd_fold_property_step:
  "snd (fold property_step ps st) = snd st @ map Val (filter (\<lambda>v. v \<noteq> Undefined) (map snd ps))"
  by (induction ps arbitrary: st) (simp_all add: property_step_def snd_push snd_emit)

lemma snd_fold_event_step:
  "snd (fold event_step es st) = snd st @ map Val (filter (\<lambda>v. v \<noteq> Undefined) (map snd es))"
  by (induction es arbitrary: st) (simp_all add: event_step_def snd_push snd_emit)

lemma snd_fold_directive_step: "snd (fold directive_step ds st) = snd st @ map Val ds"
  by (induction ds arbitrary: st) (simp_all add: directive_step_def snd_push snd_emit)

lemma snd_head_loops:
  "snd (emit ''>'' (for_each directive_step dirs (for_each event_step evs
        (for_each property_step props (for_each attribute_step attrs (emit t st))))))
     = snd st @ map Val (defined_values props @ defined_values evs @ entries_of dirs)"
  by (simp add: for_each_fold snd_emit snd_fold_attribute_step snd_fold_property_step
        snd_fold_event_step snd_fold_directive_step defined_values_def)

lemma prefix_fold:
  "(\<And>x st. x \<in> set xs \<Longrightarrow> prefix (snd st) (snd (f x st))) \<Longrightarrow> prefix (snd st) (snd (fold f xs st))"
proof (induction xs arbitrary: st)
  case Nil
  show ?case by simp
next
  case (Cons x xs)
  have "prefix (snd st) (snd (f x st))" using Cons.prems by simp
  moreover have "prefix (snd (f x st)) (snd (fold f xs (f x st)))"
    using Cons.IH Cons.prems by simp
  ultimately show ?case by (auto intro: prefix_order.trans)
qed

lemma prefix_build_inner: "prefix (snd st) (snd (build_inner el st))"
proof (induction el arbitrary: st rule: node_children_induct)
  case (Text s)
  show ?case by (simp add: snd_emit)
next
  case (Obj hs hv nm attrs props evs dirs chs)
  have kids: "\<And>s. prefix (snd s) (snd (fold build_inner (entries_of chs) s))"
    using Obj by (intro prefix_fold)
  show ?case
  proof (cases "hs \<and> hv")
    case True
    then show ?thesis by (simp add: build_inner_template snd_push)
  next
    case notpl: False
    show ?thesis
    proof (cases "nm = None \<or> nm = Some []")
      case True
      show ?thesis
        by (simp only: build_inner_fragment [OF notpl True] for_each_fold kids)
    next
      case False
      then obtain n where n: "nm = Some n" "n \<noteq> []" by (cases nm) auto
      define st6 where "st6 = emit ''>'' (for_each directive_step dirs (for_each event_step evs
        (for_each property_step props (for_each attribute_step attrs (emit (''<'' @ sanitize n) st)))))"
      have p6: "prefix (snd st) (snd st6)"
        unfolding st6_def by (simp only: snd_head_loops) simp
      from p6 kids [of st6] have "prefix (snd st) (snd (fold build_inner (entries_of chs) st6))"
        by (rule prefix_order.trans)
      then show ?thesis
        unfolding n(1) build_inner_tagged [OF notpl n(2)] st6_def
        by (simp only: snd_emit for_each_fold)
    qed
  qed
qed

section \<open>Entries that a loop skips\<close>

lemma fold_filter_skip:
  "(\<And>x st. \<not> P x \<Longrightarrow> f x st = st) \<Longrightarrow> fold f (filter P xs) st = fold f xs st"
  by (induction xs arbitrary: st) simp_all

lemma for_each_attribute_filter:
  "for_each attribute_step (map_option (filter (\<lambda>e. snd e \<noteq> AUndefined)) attrs) st
     = for_each attribute_step attrs st"
proof (cases attrs)
  case None
  then show ?thesis by simp
next
  case (Some as)
  have "fold attribute_step (filter (\<lambda>e. snd e \<noteq> AUndefined) as) st = fold attribute_step as st"
    by (rule fold_filter_skip) (simp add: attribute_step_def)
  with Some show ?thesis by (simp add: for_each_def)
qed

lemma for_each_property_filter:
  "for_each property_step (map_option (filter (\<lambda>e. snd e \<noteq> Undefined)) props) st
     = for_each property_step props st"
proof (cases props)
  case None
  then show ?thesis by simp
next
  case (Some ps)
  have "fold property_step (filter (\<lambda>e. snd e \<noteq> Undefined) ps) st = fold property_step ps st"
    by (rule fold_filter_skip) (simp add: property_step_def)
  with Some show ?thesis by (simp add: for_each_def)
qed

lemma for_each_event_filter:
  "for_each event_step (map_option (filter (\<lambda>e. snd e \<noteq> Undefined)) evs) st
     = for_each event_step evs st"
proof (cases evs)
  case None
  then show ?thesis by simp
next
  case (Some es)
  have "fold event_step (filter (\<lambda>e. snd e \<noteq> Undefined) es) st = fold event_step es st"
    by (rule fold_filter_skip) (simp add: event_step_def)
  with Some show ?thesis by (simp add: for_each_def)
qed

section \<open>The loop over the directives, in closed form\<close>

lemma fold_directive_step_snoc:
  "fold directive_step ds (pre @ [op], vals)
     = ((if ds = [] then pre @ [op]
         else pre @ [op @ '' ''] @ replicate (length ds - 1) '' '' @ ['''']),
        vals @ map Val ds)"
proof (induction ds rule: rev_induct)
  case Nil
  show ?case by simp
next
  case (snoc d ds)
  show ?case
  proof (cases "ds = []")
    case True
    then show ?thesis by (simp add: directive_step_def emit_snoc push_def)
  next
    case False
    have "emit '' '' (pre @ [op @ '' ''] @ replicate (length ds - 1) '' '' @ [''''], vals @ map Val ds)
            = ((pre @ [op @ '' ''] @ replicate (length ds - 1) '' '') @ ['' ''], vals @ map Val ds)"
      using emit_snoc [of "'' ''" "pre @ [op @ '' ''] @ replicate (length ds - 1) '' ''" "''''"]
      by simp
    moreover have "replicate (length ds - 1) '' '' @ ['' ''] = replicate (length ds) '' ''"
      using False by (cases ds) (simp_all add: replicate_append_same)
    ultimately show ?thesis
      using False snoc.IH by (simp add: directive_step_def push_def)
  qed
qed

section \<open>The opening tag, in closed form\<close>

lemma fragments_after_Nil: "fragments_after pre op [] s = pre @ [op @ s]"
  by (simp add: fragments_after_def)

lemma emit_fragments_after:
  "emit s (fragments_after pre op Q s0, vals) = (fragments_after pre op Q (s0 @ s), vals)"
proof (cases Q)
  case Nil
  then show ?thesis by (simp add: fragments_after_def emit_snoc)
next
  case (Cons p ps)
  have "emit s ((pre @ [op @ p] @ ps) @ [s0], vals) = ((pre @ [op @ p] @ ps) @ [s0 @ s], vals)"
    by (rule emit_snoc)
  with Cons show ?thesis by (simp add: fragments_after_def)
qed

lemma push_fragments_after:
  "push v (fragments_after pre op Q h, vals) = (fragments_after pre op (Q @ [h]) '''', vals @ [v])"
  by (cases Q) (simp_all add: fragments_after_def push_def)

lemma bind_fragments_after:
  "push v (emit h (fragments_after pre op Q '''', vals))
     = (fragments_after pre op (Q @ [h]) '''', vals @ [v])"
  by (simp add: emit_fragments_after push_fragments_after)

lemma fold_attribute_step_text:
  "fold attribute_step as (pre @ [op], vals)
     = (pre @ [op @ concat (map attribute_text (filter (\<lambda>e. snd e \<noteq> AUndefined) as))], vals)"
  by (induction as arbitrary: op) (simp_all add: attribute_step_def emit_snoc)

lemma fold_property_step_after:
  "fold property_step ps (fragments_after pre op Q '''', vals)
     = (fragments_after pre op
          (Q @ map (\<lambda>e. '' .'' @ sanitize (fst e) @ ''='') (filter (\<lambda>e. snd e \<noteq> Undefined) ps)) '''',
        vals @ map Val (filter (\<lambda>v. v \<noteq> Undefined) (map snd ps)))"
  by (induction ps arbitrary: Q vals) (simp_all add: property_step_def bind_fragments_after)

lemma fold_event_step_after:
  "fold event_step es (fragments_after pre op Q '''', vals)
     = (fragments_after pre op
          (Q @ map (\<lambda>e. '' @'' @ sanitize (fst e) @ ''='') (filter (\<lambda>e. snd e \<noteq> Undefined) es)) '''',
        vals @ map Val (filter (\<lambda>v. v \<noteq> Undefined) (map snd es)))"
  by (induction es arbitrary: Q vals) (simp_all add: event_step_def bind_fragments_after)

lemma fold_directive_step_after:
  "fold directive_step ds (fragments_after pre op Q '''', vals)
     = (fragments_after pre op (Q @ map (\<lambda>d. '' '') ds) '''', vals @ map Val ds)"
  by (induction ds arbitrary: Q vals) (simp_all add: directive_step_def bind_fragments_after)

lemma opening_tag_closed_form:
  "emit ''>'' (for_each directive_step dirs (for_each event_step evs
        (for_each property_step props (for_each attribute_step attrs
          (emit (''<'' @ t) (pre @ [op], vals))))))
     = (fragments_after pre (op @ ''<'' @ t @ attributes_text attrs)
          (binding_texts props evs dirs) ''>'',
        vals @ map Val (defined_values props @ defined_values evs @ entries_of dirs))"
proof -
  have "for_each attribute_step attrs (emit (''<'' @ t) (pre @ [op], vals))
          = (fragments_after pre (op @ ''<'' @ t @ attributes_text attrs) [] '''', vals)"
    by (simp add: for_each_fold emit_snoc fold_attribute_step_text attributes_text_def
          fragments_after_Nil)
  then show ?thesis
    by (simp add: for_each_fold fold_property_step_after fold_event_step_after
          fold_directive_step_after emit_fragments_after binding_texts_def defined_values_def)
qed

section \<open>The bounded call stack\<close>







section \<open>The properties of the specification\<close>

text \<open>
  Claim C1. For every input of \<^verbatim>\<open>build\<close>, a single node or a sequence of nodes, of any
  nesting depth and any mix of text, template, fragment and named-element nodes, the
  sequence of fragments that \<^verbatim>\<open>build\<close> hands to the host engine has exactly one more
  entry than the sequence of values.
\<close>

theorem build_fragments_one_more_than_values:
  "length (fst (build inp)) = length (snd (build inp)) + 1"
proof -
  have "surplus (build inp) = surplus ([''''], [])"
    by (cases inp) (simp_all add: surplus_build_inner surplus_fold)
  then show ?thesis by (simp add: surplus_def)
qed

text \<open>
  Claim C2, evaluated on the code. The claim expects the attribute
  \<^verbatim>\<open>href="&lt;&gt;&amp;&quot;"\<close> for the value \<^verbatim>\<open><>&"\<close>, each of the four characters
  escaped once. The code replaces \<^verbatim>\<open>&\<close> after it has replaced \<^verbatim>\<open><\<close> and \<^verbatim>\<open>>\<close>,
  so the ampersands that the first two passes inserted are escaped again: the fragment
  holds \<^verbatim>\<open>href="&amp;lt;&amp;gt;&amp;&quot;"\<close>, which is not the expected text.
\<close>

theorem attribute_value_escaped_twice:
  "build (Single (Obj False False (Some ''a'')
            (Some [(''href'', AStr [CHR ''<'', CHR ''>'', CHR ''&'', CHR 0x22])])
            None None None None))
     = ([''<a href='' @ [CHR 0x22] @ ''&amp;lt;&amp;gt;&amp;&quot;'' @ [CHR 0x22] @ ''></a>''], [])
   \<and> escape_value [CHR ''<'', CHR ''>'', CHR ''&'', CHR 0x22] = ''&amp;lt;&amp;gt;&amp;&quot;''
   \<and> escape_value [CHR ''<'', CHR ''>'', CHR ''&'', CHR 0x22] \<noteq> ''&lt;&gt;&amp;&quot;''"
  by code_simp

text \<open>
  Claim C3, as stated, fails: for the list \<^verbatim>\<open>ul\<close> with the children \<^verbatim>\<open>li\<close> "A", the
  text "B" and \<^verbatim>\<open>li\<close> "C", the result is not the three fragments
  \<^verbatim>\<open>"<ul><li>"\<close>, \<^verbatim>\<open>"</li>B<li>"\<close>, \<^verbatim>\<open>"</li></ul>"\<close> with no values.
\<close>

theorem nested_mixed_content_not_three_fragments:
  "build (Single (Obj False False (Some ''ul'') None None None None
       (Some [Obj False False (Some ''li'') None None None None (Some [Text ''A'']),
              Text ''B'',
              Obj False False (Some ''li'') None None None None (Some [Text ''C''])])))
     \<noteq> ([''<ul><li>'', ''</li>B<li>'', ''</li></ul>''], [])"
  by code_simp

text \<open>
  Claim C3, amended. A new fragment is opened only when a value is pushed; text children
  are appended to the open fragment. So the same input compiles to the single fragment
  \<^verbatim>\<open>"<ul><li>A</li>B<li>C</li></ul>"\<close> and no values.
\<close>

theorem nested_mixed_content_single_fragment:
  "build (Single (Obj False False (Some ''ul'') None None None None
       (Some [Obj False False (Some ''li'') None None None None (Some [Text ''A'']),
              Text ''B'',
              Obj False False (Some ''li'') None None None None (Some [Text ''C''])])))
     = ([''<ul><li>A</li>B<li>C</li></ul>''], [])"
  by code_simp

text \<open>
  Claim C4. For \<^verbatim>\<open>{name: "div", properties: {x: 1, y: 2}, events: {click: fn}}\<close> the
  values are \<^verbatim>\<open>[1, 2, fn]\<close>. In general, a named element pushes the defined property
  values in entry order, then the defined event handlers in entry order, then the
  directives in sequence order, before any value of its children; without children these
  are all its values, and it opens as many fragments as it pushes values. Every push is
  followed at once by a new empty fragment.
\<close>

theorem values_in_declared_order:
  "build (Single (Obj False False (Some ''div'') None
        (Some [(''x'', Num 1), (''y'', Num 2)]) (Some [(''click'', Ref 0)]) None None))
     = ([''<div .x='', '' .y='', '' @click='', ''></div>''],
        [Val (Num 1), Val (Num 2), Val (Ref 0)])
   \<and> (n \<noteq> [] \<and> \<not> (hs \<and> hv) \<longrightarrow>
        prefix (vals @ map Val (defined_values props @ defined_values evs @ entries_of dirs))
          (snd (build_inner (Obj hs hv (Some n) attrs props evs dirs chs) (strs, vals)))
        \<and> snd (build_inner (Obj hs hv (Some n) attrs props evs dirs None) (strs, vals))
            = vals @ map Val (defined_values props @ defined_values evs @ entries_of dirs)
        \<and> length (fst (build_inner (Obj hs hv (Some n) attrs props evs dirs None) (strs, vals)))
            = length strs + length (defined_values props @ defined_values evs @ entries_of dirs))
   \<and> (v \<noteq> Undefined \<longrightarrow>
        property_step (k, v) (strs, vals)
          = (append_open ('' .'' @ sanitize k @ ''='') strs @ [''''], vals @ [Val v])
        \<and> event_step (k, v) (strs, vals)
          = (append_open ('' @'' @ sanitize k @ ''='') strs @ [''''], vals @ [Val v]))
   \<and> directive_step d (strs, vals) = (append_open '' '' strs @ [''''], vals @ [Val d])"
proof -
  let ?pushed = "defined_values props @ defined_values evs @ entries_of dirs"
  have example: "build (Single (Obj False False (Some ''div'') None
        (Some [(''x'', Num 1), (''y'', Num 2)]) (Some [(''click'', Ref 0)]) None None))
     = ([''<div .x='', '' .y='', '' @click='', ''></div>''],
        [Val (Num 1), Val (Num 2), Val (Ref 0)])"
    by code_simp
  have element: "prefix (vals @ map Val ?pushed)
          (snd (build_inner (Obj hs hv (Some n) attrs props evs dirs chs) (strs, vals)))
        \<and> snd (build_inner (Obj hs hv (Some n) attrs props evs dirs None) (strs, vals))
            = vals @ map Val ?pushed
        \<and> length (fst (build_inner (Obj hs hv (Some n) attrs props evs dirs None) (strs, vals)))
            = length strs + length ?pushed"
    if named: "n \<noteq> []" and notpl: "\<not> (hs \<and> hv)"
  proof -
    define st6 where "st6 = emit ''>'' (for_each directive_step dirs (for_each event_step evs
        (for_each property_step props (for_each attribute_step attrs
          (emit (''<'' @ sanitize n) (strs, vals))))))"
    have s6: "snd st6 = vals @ map Val ?pushed"
      unfolding st6_def by (simp only: snd_head_loops) simp
    have "prefix (snd st6) (snd (fold build_inner (entries_of chs) st6))"
      by (intro prefix_fold prefix_build_inner)
    then have a: "prefix (vals @ map Val ?pushed)
        (snd (build_inner (Obj hs hv (Some n) attrs props evs dirs chs) (strs, vals)))"
      unfolding build_inner_tagged [OF notpl named] st6_def [symmetric]
      by (simp only: snd_emit for_each_fold s6)
    have b: "snd (build_inner (Obj hs hv (Some n) attrs props evs dirs None) (strs, vals))
               = vals @ map Val ?pushed"
      unfolding build_inner_tagged [OF notpl named] st6_def [symmetric]
      by (simp add: snd_emit for_each_def s6)
    have "surplus (build_inner (Obj hs hv (Some n) attrs props evs dirs None) (strs, vals))
            = surplus (strs, vals)"
      by (rule surplus_build_inner)
    then have c: "length (fst (build_inner (Obj hs hv (Some n) attrs props evs dirs None) (strs, vals)))
               = length strs + length ?pushed"
      unfolding surplus_def b by simp
    from a b c show ?thesis by blast
  qed
  have steps: "property_step (k, v) (strs, vals)
          = (append_open ('' .'' @ sanitize k @ ''='') strs @ [''''], vals @ [Val v])
        \<and> event_step (k, v) (strs, vals)
          = (append_open ('' @'' @ sanitize k @ ''='') strs @ [''''], vals @ [Val v])"
    if "v \<noteq> Undefined"
    using that by (simp add: property_step_def event_step_def push_def emit_def)
  have directive: "directive_step d (strs, vals)
      = (append_open '' '' strs @ [''''], vals @ [Val d])"
    by (simp add: directive_step_def push_def emit_def)
  from example element steps directive show ?thesis by blast
qed

theorem values_in_declared_order_witness:
  "''div'' \<noteq> [] \<and> \<not> (False \<and> False) \<and> Num 1 \<noteq> Undefined
   \<and> snd (build_inner (Obj False False (Some ''div'') None
        (Some [(''x'', Num 1), (''y'', Num 2)]) (Some [(''click'', Ref 0)]) None None) ([''''], []))
       = [Val (Num 1), Val (Num 2), Val (Ref 0)]
   \<and> property_step (''x'', Num 1) ([''<div''], []) = ([''<div .x='', ''''], [Val (Num 1)])"
proof -
  have a: "''div'' \<noteq> [] \<and> \<not> (False \<and> False)" by simp
  have b: "Num 1 \<noteq> Undefined" by simp
  have v: "[] @ map Val (defined_values (Some [(''x'', Num 1), (''y'', Num 2)])
             @ defined_values (Some [(''click'', Ref 0)]) @ entries_of None)
           = [Val (Num 1), Val (Num 2), Val (Ref 0)]" by code_simp
  have p: "(append_open ('' .'' @ sanitize ''x'' @ ''='') [''<div''] @ [''''], [] @ [Val (Num 1)])
           = ([''<div .x='', ''''], [Val (Num 1)])" by code_simp
  note inst = values_in_declared_order [where n = "''div''" and hs = False and hv = False
      and vals = "[]" and strs = "['''']" and attrs = None
      and props = "Some [(''x'', Num 1), (''y'', Num 2)]" and evs = "Some [(''click'', Ref 0)]"
      and dirs = None and chs = None and v = "Num 1" and k = "''x''" and d = Undefined]
  note inst' = values_in_declared_order [where n = "''div''" and hs = False and hv = False
      and vals = "[]" and strs = "[''<div'']" and attrs = None
      and props = None and evs = None
      and dirs = None and chs = None and v = "Num 1" and k = "''x''" and d = Undefined]
  have "snd (build_inner (Obj False False (Some ''div'') None
        (Some [(''x'', Num 1), (''y'', Num 2)]) (Some [(''click'', Ref 0)]) None None) ([''''], []))
       = [Val (Num 1), Val (Num 2), Val (Ref 0)]"
    using inst [THEN conjunct2, THEN conjunct1, THEN mp, OF a, THEN conjunct2, THEN conjunct1]
    by (simp only: v)
  moreover have "property_step (''x'', Num 1) ([''<div''], []) = ([''<div .x='', ''''], [Val (Num 1)])"
    using inst' [THEN conjunct2, THEN conjunct2, THEN conjunct1, THEN mp, OF b, THEN conjunct1]
    by (simp only: p)
  ultimately show ?thesis using a b by blast
qed

text \<open>
  Claim C5. An attribute, property or event entry whose value is \<^verbatim>\<open>undefined\<close>
  contributes nothing: \<^verbatim>\<open>{name: "div", attributes: {a: "1", b: undefined}}\<close> compiles to
  the one attribute \<^verbatim>\<open>a="1"\<close> and no value, and for every object that is not classified
  as a template, removing the undefined entries from the three records leaves the result
  unchanged. Every other entry is emitted, whatever its value: for every named element
  the opening tag holds the text of each attribute whose value is not \<^verbatim>\<open>undefined\<close>
  and one binding for each property and each event whose value is not \<^verbatim>\<open>undefined\<close>,
  in entry order, and exactly these property and event values are pushed. In particular
  the empty string, \<^verbatim>\<open>0\<close> and \<^verbatim>\<open>false\<close> are emitted, as attribute text
  (\<^verbatim>\<open>k=""\<close>, \<^verbatim>\<open>k="0"\<close>, \<^verbatim>\<open>k="false"\<close>) and as property and event values, and so is
  \<^verbatim>\<open>null\<close> as a property or event value.
\<close>

theorem undefined_entries_skipped:
  "build (Single (Obj False False (Some ''div'')
              (Some [(''a'', AStr ''1''), (''b'', AUndefined)]) None None None None))
     = ([''<div a='' @ [CHR 0x22] @ ''1'' @ [CHR 0x22] @ ''></div>''], [])
   \<and> build (Single (Obj False False (Some ''div'')
              (Some [(''a'', AStr ''''), (''z'', ANum 0), (''f'', ABool False)])
              (Some [(''p'', Num 0), (''u'', Undefined), (''q'', Bool False), (''r'', Str '''')])
              (Some [(''e'', Bool False), (''w'', Undefined)]) None None))
     = ([''<div a='' @ [CHR 0x22, CHR 0x22] @ '' z='' @ [CHR 0x22] @ ''0'' @ [CHR 0x22]
           @ '' f='' @ [CHR 0x22] @ ''false'' @ [CHR 0x22] @ '' .p='',
         '' .q='', '' .r='', '' @e='', ''></div>''],
        [Val (Num 0), Val (Bool False), Val (Str ''''), Val (Bool False)])
   \<and> (\<not> (hs \<and> hv) \<longrightarrow>
        build_inner (Obj hs hv nm attrs props evs dirs chs) st
          = build_inner (Obj hs hv nm
              (map_option (filter (\<lambda>e. snd e \<noteq> AUndefined)) attrs)
              (map_option (filter (\<lambda>e. snd e \<noteq> Undefined)) props)
              (map_option (filter (\<lambda>e. snd e \<noteq> Undefined)) evs) dirs chs) st)
   \<and> (n \<noteq> [] \<and> \<not> (hs \<and> hv) \<longrightarrow>
        build_inner (Obj hs hv (Some n) attrs props evs dirs chs) (pre @ [op], vals)
          = emit (''</'' @ sanitize n @ ''>'')
              (fold build_inner (entries_of chs)
                (fragments_after pre (op @ ''<'' @ sanitize n @ attributes_text attrs)
                   (binding_texts props evs dirs) ''>'',
                 vals @ map Val (defined_values props @ defined_values evs @ entries_of dirs)))
        \<and> build_inner (Obj hs hv (Some n) attrs props evs dirs None) (pre @ [op], vals)
          = (fragments_after pre (op @ ''<'' @ sanitize n @ attributes_text attrs)
               (binding_texts props evs dirs) (''>'' @ ''</'' @ sanitize n @ ''>''),
             vals @ map Val (defined_values props @ defined_values evs @ entries_of dirs)))
   \<and> attributes_text (Some [(k1, AStr ''''), (k2, ANum 0), (k3, ABool False), (k4, AUndefined)])
       = '' '' @ sanitize k1 @ ''='' @ [CHR 0x22, CHR 0x22]
         @ '' '' @ sanitize k2 @ ''='' @ [CHR 0x22] @ ''0'' @ [CHR 0x22]
         @ '' '' @ sanitize k3 @ ''='' @ [CHR 0x22] @ ''false'' @ [CHR 0x22]
   \<and> defined_values (Some [(k1, Str ''''), (k2, Num 0), (k3, Bool False), (k4, Null), (k5, Undefined)])
       = [Str '''', Num 0, Bool False, Null]"
proof -
  have example: "build (Single (Obj False False (Some ''div'')
              (Some [(''a'', AStr ''1''), (''b'', AUndefined)]) None None None None))
     = ([''<div a='' @ [CHR 0x22] @ ''1'' @ [CHR 0x22] @ ''></div>''], [])"
    by code_simp
  have falsy: "build (Single (Obj False False (Some ''div'')
              (Some [(''a'', AStr ''''), (''z'', ANum 0), (''f'', ABool False)])
              (Some [(''p'', Num 0), (''u'', Undefined), (''q'', Bool False), (''r'', Str '''')])
              (Some [(''e'', Bool False), (''w'', Undefined)]) None None))
     = ([''<div a='' @ [CHR 0x22, CHR 0x22] @ '' z='' @ [CHR 0x22] @ ''0'' @ [CHR 0x22]
           @ '' f='' @ [CHR 0x22] @ ''false'' @ [CHR 0x22] @ '' .p='',
         '' .q='', '' .r='', '' @e='', ''></div>''],
        [Val (Num 0), Val (Bool False), Val (Str ''''), Val (Bool False)])"
    by code_simp
  have skipped: "build_inner (Obj hs hv nm attrs props evs dirs chs) st
          = build_inner (Obj hs hv nm
              (map_option (filter (\<lambda>e. snd e \<noteq> AUndefined)) attrs)
              (map_option (filter (\<lambda>e. snd e \<noteq> Undefined)) props)
              (map_option (filter (\<lambda>e. snd e \<noteq> Undefined)) evs) dirs chs) st"
    if notpl: "\<not> (hs \<and> hv)"
  proof (cases "nm = None \<or> nm = Some []")
    case True
    show ?thesis by (simp only: build_inner_fragment [OF notpl True])
  next
    case False
    then obtain n where n: "nm = Some n" "n \<noteq> []" by (cases nm) auto
    show ?thesis
      unfolding n(1) build_inner_tagged [OF notpl n(2)]
      by (simp only: for_each_attribute_filter for_each_property_filter for_each_event_filter)
  qed
  have emitted: "build_inner (Obj hs hv (Some n) attrs props evs dirs chs) (pre @ [op], vals)
          = emit (''</'' @ sanitize n @ ''>'')
              (fold build_inner (entries_of chs)
                (fragments_after pre (op @ ''<'' @ sanitize n @ attributes_text attrs)
                   (binding_texts props evs dirs) ''>'',
                 vals @ map Val (defined_values props @ defined_values evs @ entries_of dirs)))
        \<and> build_inner (Obj hs hv (Some n) attrs props evs dirs None) (pre @ [op], vals)
          = (fragments_after pre (op @ ''<'' @ sanitize n @ attributes_text attrs)
               (binding_texts props evs dirs) (''>'' @ ''</'' @ sanitize n @ ''>''),
             vals @ map Val (defined_values props @ defined_values evs @ entries_of dirs))"
    if named: "n \<noteq> []" and notpl: "\<not> (hs \<and> hv)"
  proof -
    have a: "build_inner (Obj hs hv (Some n) attrs props evs dirs chs) (pre @ [op], vals)
          = emit (''</'' @ sanitize n @ ''>'')
              (fold build_inner (entries_of chs)
                (fragments_after pre (op @ ''<'' @ sanitize n @ attributes_text attrs)
                   (binding_texts props evs dirs) ''>'',
                 vals @ map Val (defined_values props @ defined_values evs @ entries_of dirs)))"
      for chs
      unfolding build_inner_tagged [OF notpl named]
      by (simp only: opening_tag_closed_form for_each_fold [of build_inner])
    have "build_inner (Obj hs hv (Some n) attrs props evs dirs None) (pre @ [op], vals)
          = (fragments_after pre (op @ ''<'' @ sanitize n @ attributes_text attrs)
               (binding_texts props evs dirs) (''>'' @ ''</'' @ sanitize n @ ''>''),
             vals @ map Val (defined_values props @ defined_values evs @ entries_of dirs))"
      unfolding a [of None] by (simp add: entries_of_def emit_fragments_after)
    with a [of chs] show ?thesis by (rule conjI)
  qed
  have rendered: "attributes_text (Some [(k1, AStr ''''), (k2, ANum 0), (k3, ABool False), (k4, AUndefined)])
       = '' '' @ sanitize k1 @ ''='' @ [CHR 0x22, CHR 0x22]
         @ '' '' @ sanitize k2 @ ''='' @ [CHR 0x22] @ ''0'' @ [CHR 0x22]
         @ '' '' @ sanitize k3 @ ''='' @ [CHR 0x22] @ ''false'' @ [CHR 0x22]"
  proof -
    have "escape_value '''' = ''''" "escape_value ''0'' = ''0''" "escape_value ''false'' = ''false''"
      by code_simp+
    moreover have "to_string (ANum 0) = ''0''" by code_simp
    ultimately show ?thesis
      by (simp add: attributes_text_def attribute_text_def entries_of_def)
  qed
  have kept: "defined_values (Some [(k1, Str ''''), (k2, Num 0), (k3, Bool False), (k4, Null), (k5, Undefined)])
       = [Str '''', Num 0, Bool False, Null]"
    by (simp add: defined_values_def entries_of_def)
  from example falsy skipped emitted rendered kept show ?thesis by blast
qed

theorem undefined_entries_skipped_witness:
  "\<not> (False \<and> False) \<and> ''div'' \<noteq> []
   \<and> build_inner (Obj False False (Some ''div'')
        (Some [(''a'', AStr ''1''), (''b'', AUndefined)])
        (Some [(''u'', Undefined), (''p'', Num 0)]) (Some [(''w'', Undefined)]) None None)
        ([''''], [])
     = build_inner (Obj False False (Some ''div'')
        (Some [(''a'', AStr ''1'')]) (Some [(''p'', Num 0)]) (Some []) None None) ([''''], [])
   \<and> build_inner (Obj False False (Some ''div'')
        (Some [(''z'', ANum 0)]) (Some [(''p'', Num 0), (''n'', Null)]) (Some [(''e'', Str '''')])
        None None) ([] @ [''''], [])
     = ([''<div z='' @ [CHR 0x22] @ ''0'' @ [CHR 0x22] @ '' .p='', '' .n='', '' @e='', ''></div>''],
        [Val (Num 0), Val Null, Val (Str '''')])"
proof -
  have a: "\<not> (False \<and> False)" by simp
  have b: "''div'' \<noteq> [] \<and> \<not> (False \<and> False)" by simp
  have f: "map_option (filter (\<lambda>e. snd e \<noteq> AUndefined)) (Some [(''a'', AStr ''1''), (''b'', AUndefined)])
             = Some [(''a'', AStr ''1'')]"
          "map_option (filter (\<lambda>e. snd e \<noteq> Undefined)) (Some [(''u'', Undefined), (''p'', Num 0)])
             = Some [(''p'', Num 0)]"
          "map_option (filter (\<lambda>e. snd e \<noteq> Undefined)) (Some [(''w'', Undefined)]) = Some []"
    by simp_all
  have skip: "build_inner (Obj False False (Some ''div'')
        (Some [(''a'', AStr ''1''), (''b'', AUndefined)])
        (Some [(''u'', Undefined), (''p'', Num 0)]) (Some [(''w'', Undefined)]) None None)
        ([''''], [])
     = build_inner (Obj False False (Some ''div'')
        (Some [(''a'', AStr ''1'')]) (Some [(''p'', Num 0)]) (Some []) None None) ([''''], [])"
    using undefined_entries_skipped [where hs = False and hv = False and nm = "Some ''div''"
        and attrs = "Some [(''a'', AStr ''1''), (''b'', AUndefined)]"
        and props = "Some [(''u'', Undefined), (''p'', Num 0)]"
        and evs = "Some [(''w'', Undefined)]" and dirs = None and chs = None
        and st = "([''''], [])", THEN conjunct2, THEN conjunct2, THEN conjunct1, THEN mp, OF a]
    by (simp only: f)
  have ev: "(fragments_after [] ('''' @ ''<'' @ sanitize ''div'' @ attributes_text (Some [(''z'', ANum 0)]))
               (binding_texts (Some [(''p'', Num 0), (''n'', Null)]) (Some [(''e'', Str '''')]) None)
               (''>'' @ ''</'' @ sanitize ''div'' @ ''>''),
             [] @ map Val (defined_values (Some [(''p'', Num 0), (''n'', Null)])
                    @ defined_values (Some [(''e'', Str '''')]) @ entries_of None))
     = ([''<div z='' @ [CHR 0x22] @ ''0'' @ [CHR 0x22] @ '' .p='', '' .n='', '' @e='', ''></div>''],
        [Val (Num 0), Val Null, Val (Str '''')])"
    by code_simp
  have emitted: "build_inner (Obj False False (Some ''div'')
        (Some [(''z'', ANum 0)]) (Some [(''p'', Num 0), (''n'', Null)]) (Some [(''e'', Str '''')])
        None None) ([] @ [''''], [])
     = ([''<div z='' @ [CHR 0x22] @ ''0'' @ [CHR 0x22] @ '' .p='', '' .n='', '' @e='', ''></div>''],
        [Val (Num 0), Val Null, Val (Str '''')])"
    using undefined_entries_skipped [where hs = False and hv = False and n = "''div''"
        and attrs = "Some [(''z'', ANum 0)]"
        and props = "Some [(''p'', Num 0), (''n'', Null)]"
        and evs = "Some [(''e'', Str '''')]" and dirs = None and chs = None
        and pre = "[]" and op = "''''" and vals = "[]",
        THEN conjunct2, THEN conjunct2, THEN conjunct2, THEN conjunct1, THEN mp, OF b,
        THEN conjunct2]
    by (simp only: ev)
  from a b skip emitted show ?thesis by blast
qed

text \<open>
  Claim C6. A node without a name whose only child is \<^verbatim>\<open>{name: "span", children: ["x"]}\<close>
  compiles to the same fragments and values as that child compiled directly; and a node
  without a name that has one child, whatever it is, does to the accumulators what the
  child alone does: the fragment node adds no markup of its own.
\<close>

theorem fragment_identity:
  "build (Single (Obj False False None None None None None
       (Some [Obj False False (Some ''span'') None None None None (Some [Text ''x''])])))
     = build (Single (Obj False False (Some ''span'') None None None None (Some [Text ''x''])))
   \<and> build (Single (Obj False False (Some ''span'') None None None None (Some [Text ''x''])))
     = ([''<span>x</span>''], [])
   \<and> build_inner (Obj False False None attrs props evs dirs (Some [c])) st = build_inner c st"
proof -
  have "build (Single (Obj False False None None None None None
       (Some [Obj False False (Some ''span'') None None None None (Some [Text ''x''])])))
     = build (Single (Obj False False (Some ''span'') None None None None (Some [Text ''x''])))"
    by code_simp
  moreover have "build (Single (Obj False False (Some ''span'') None None None None
       (Some [Text ''x''])))
     = ([''<span>x</span>''], [])"
    by code_simp
  moreover have "build_inner (Obj False False None attrs props evs dirs (Some [c])) st
      = build_inner c st"
    by (simp add: build_inner_fragment for_each_def)
  ultimately show ?thesis by blast
qed

text \<open>
  Claim C7. For an element descriptor (an object not classified as a template) whose name
  is absent, the attributes, properties, events and directives are ignored: the result is
  the one of the same node without them, namely the children compiled in order into the
  same accumulators; without children the accumulators are unchanged.
\<close>

theorem nameless_node_ignores_bindings:
  assumes "\<not> (hs \<and> hv)"
  shows "build_inner (Obj hs hv None attrs props evs dirs chs) st
           = build_inner (Obj hs hv None None None None None chs) st
         \<and> build_inner (Obj hs hv None attrs props evs dirs chs) st
           = fold build_inner (entries_of chs) st
         \<and> build_inner (Obj hs hv None attrs props evs dirs None) st = st"
proof -
  have frag: "\<And>a p e d c. build_inner (Obj hs hv None a p e d c) st = for_each build_inner c st"
    using assms by (intro build_inner_fragment) simp_all
  show ?thesis
    by (simp only: frag for_each_fold) (simp add: entries_of_def)
qed

theorem nameless_node_ignores_bindings_witness:
  "\<not> (False \<and> False)
   \<and> build_inner (Obj False False None (Some [(''id'', AStr ''x'')]) (Some [(''v'', Num 1)])
        (Some [(''click'', Ref 0)]) (Some [Ref 1]) (Some [Text ''t''])) ([''''], [])
     = ([''t''], [])
   \<and> build_inner (Obj False False None (Some [(''id'', AStr ''x'')]) (Some [(''v'', Num 1)])
        (Some [(''click'', Ref 0)]) (Some [Ref 1]) None) ([''''], [])
     = ([''''], [])"
proof -
  have h: "\<not> (False \<and> False)" by simp
  have e: "build_inner (Obj False False None None None None None (Some [Text ''t''])) ([''''], [])
             = ([''t''], [])" by code_simp
  show ?thesis
    using nameless_node_ignores_bindings [OF h, where attrs = "Some [(''id'', AStr ''x'')]"
        and props = "Some [(''v'', Num 1)]" and evs = "Some [(''click'', Ref 0)]"
        and dirs = "Some [Ref 1]" and chs = "Some [Text ''t'']" and st = "([''''], [])"] e
    by simp
qed

text \<open>
  Claim C8. An object that has both a field \<^verbatim>\<open>strings\<close> and a field \<^verbatim>\<open>values\<close> is
  taken for a precompiled template, whatever else it holds (a name, attributes, children):
  it is pushed as the next value, a new empty fragment is opened, and no text is appended
  to any fragment. An object with only one of the two fields is an element descriptor, and
  inside a named element a template child leaves only the parent's markup in the
  fragments.
\<close>

theorem template_classified_by_two_fields:
  "build_inner (Obj True True nm attrs props evs dirs chs) (strs, vals)
     = (strs @ [''''], vals @ [Tpl (Obj True True nm attrs props evs dirs chs)])
   \<and> build_inner (Obj True False None None None None None (Some [Text ''t''])) ([''''], [])
     = ([''t''], [])
   \<and> build_inner (Obj False True (Some ''b'') None None None None None) ([''''], [])
     = ([''<b></b>''], [])
   \<and> build (Single (Obj False False (Some ''div'') None None None None
        (Some [Obj True True (Some ''b'') None None None None (Some [Text ''x''])])))
     = ([''<div>'', ''</div>''],
        [Tpl (Obj True True (Some ''b'') None None None None (Some [Text ''x'']))])"
proof -
  have "build_inner (Obj True True nm attrs props evs dirs chs) (strs, vals)
     = (strs @ [''''], vals @ [Tpl (Obj True True nm attrs props evs dirs chs)])"
    by (simp add: build_inner_template push_def)
  moreover have "build_inner (Obj True False None None None None None (Some [Text ''t'']))
      ([''''], []) = ([''t''], [])"
    by code_simp
  moreover have "build_inner (Obj False True (Some ''b'') None None None None None) ([''''], [])
     = ([''<b></b>''], [])"
    by code_simp
  moreover have "build (Single (Obj False False (Some ''div'') None None None None
        (Some [Obj True True (Some ''b'') None None None None (Some [Text ''x''])])))
     = ([''<div>'', ''</div>''],
        [Tpl (Obj True True (Some ''b'') None None None None (Some [Text ''x'']))])"
    by code_simp
  ultimately show ?thesis by blast
qed




text \<open>
  Claim C10. The loop over the directives tests no entry: \<^verbatim>\<open>{name: "input",
  directives: [undefined]}\<close> pushes \<^verbatim>\<open>undefined\<close> as a value. For a named element with
  directives only, every directive, in order, appends one space to the open fragment and
  is pushed as a value followed by a new empty fragment.
\<close>

theorem directives_never_filtered:
  "build (Single (Obj False False (Some ''input'') None None None (Some [Undefined]) None))
     = ([''<input '', ''></input>''], [Val Undefined])
   \<and> (n \<noteq> [] \<and> \<not> (hs \<and> hv) \<longrightarrow>
        build_inner (Obj hs hv (Some n) None None None (Some ds) None) (pre @ [op], vals)
          = ((if ds = [] then pre @ [op @ ''<'' @ sanitize n @ ''></'' @ sanitize n @ ''>'']
              else pre @ [op @ ''<'' @ sanitize n @ '' ''] @ replicate (length ds - 1) '' ''
                     @ [''></'' @ sanitize n @ ''>'']),
             vals @ map Val ds))
   \<and> directive_step d (strs, vals) = (append_open '' '' strs @ [''''], vals @ [Val d])"
proof -
  have example: "build (Single (Obj False False (Some ''input'') None None None
       (Some [Undefined]) None))
     = ([''<input '', ''></input>''], [Val Undefined])"
    by code_simp
  have element: "build_inner (Obj hs hv (Some n) None None None (Some ds) None) (pre @ [op], vals)
          = ((if ds = [] then pre @ [op @ ''<'' @ sanitize n @ ''></'' @ sanitize n @ ''>'']
              else pre @ [op @ ''<'' @ sanitize n @ '' ''] @ replicate (length ds - 1) '' ''
                     @ [''></'' @ sanitize n @ ''>'']),
             vals @ map Val ds)"
    if named: "n \<noteq> []" and notpl: "\<not> (hs \<and> hv)"
  proof -
    have "build_inner (Obj hs hv (Some n) None None None (Some ds) None) (pre @ [op], vals)
            = emit (''</'' @ sanitize n @ ''>'')
                (emit ''>'' (fold directive_step ds (emit (''<'' @ sanitize n) (pre @ [op], vals))))"
      by (simp add: build_inner_tagged [OF notpl named] for_each_def)
    also have "\<dots> = emit (''>'' @ ''</'' @ sanitize n @ ''>'')
                      (fold directive_step ds (pre @ [op @ ''<'' @ sanitize n], vals))"
      by (simp only: emit_twice emit_snoc)
    finally have unfolded:
      "build_inner (Obj hs hv (Some n) None None None (Some ds) None) (pre @ [op], vals)
         = emit (''>'' @ ''</'' @ sanitize n @ ''>'')
             (fold directive_step ds (pre @ [op @ ''<'' @ sanitize n], vals))" .
    show ?thesis
    proof (cases "ds = []")
      case True
      then show ?thesis
        using unfolded by (simp add: emit_snoc)
    next
      case False
      have "emit (''>'' @ ''</'' @ sanitize n @ ''>'')
              ((pre @ [op @ ''<'' @ sanitize n @ '' ''] @ replicate (length ds - 1) '' '') @ [''''],
               vals @ map Val ds)
            = ((pre @ [op @ ''<'' @ sanitize n @ '' ''] @ replicate (length ds - 1) '' '')
                 @ ['''' @ ''>'' @ ''</'' @ sanitize n @ ''>''], vals @ map Val ds)"
        by (rule emit_snoc)
      then show ?thesis
        using False unfolded by (simp add: fold_directive_step_snoc)
    qed
  qed
  have step: "directive_step d (strs, vals) = (append_open '' '' strs @ [''''], vals @ [Val d])"
    by (simp add: directive_step_def push_def emit_def)
  from example element step show ?thesis by blast
qed

theorem directives_never_filtered_witness:
  "''input'' \<noteq> [] \<and> \<not> (False \<and> False)
   \<and> build_inner (Obj False False (Some ''input'') None None None
               (Some [Ref 0, Undefined, Ref 1]) None) ([] @ [''''], [])
       = ([''<input '', '' '', '' '', ''></input>''], [Val (Ref 0), Val Undefined, Val (Ref 1)])"
proof -
  have a: "''input'' \<noteq> [] \<and> \<not> (False \<and> False)" by simp
  have s: "sanitize ''input'' = ''input''" by code_simp
  have "build_inner (Obj False False (Some ''input'') None None None
               (Some [Ref 0, Undefined, Ref 1]) None) ([] @ [''''], [])
       = ([''<input '', '' '', '' '', ''></input>''], [Val (Ref 0), Val Undefined, Val (Ref 1)])"
    using directives_never_filtered [where n = "''input''" and hs = False and hv = False
        and pre = "[]" and op = "''''" and ds = "[Ref 0, Undefined, Ref 1]" and vals = "[]",
        THEN conjunct2, THEN conjunct1, THEN mp, OF a]
    by (simp add: s)
  with a show ?thesis by blast
qed

end
